theory Spec2Isabelle
  imports Main "HOL-Library.Word"
begin

unbundle bit_operations_syntax

text \<open>
  A shallow embedding of the primitive utilities of \<^verbatim>\<open>esphome/core/helpers.h\<close>: the
  byte order codec, the hex parser and the external RAM allocator. The first part
  translates the functions, the second part proves their properties.
\<close>

section \<open>Machine types\<close>

text \<open>
  The unsigned integer types of \<^verbatim>\<open>esphome/core/helpers.h\<close> are words of their width:
  arithmetic wraps, \<open>push_bit\<close> is \<^verbatim>\<open><<\<close> and \<open>drop_bit\<close> is \<^verbatim>\<open>>>\<close>. A template
  parameter \<^verbatim>\<open>T\<close> with \<^verbatim>\<open>std::is_unsigned<T>\<close> is a type variable \<open>'a::len\<close> at the
  types \<open>u8\<close>, \<open>u16\<close>, \<open>u32\<close> and \<open>u64\<close>; \<^verbatim>\<open>sizeof(T)\<close> is its number of bytes.
\<close>

type_synonym u8 = "8 word"
type_synonym u16 = "16 word"
type_synonym u32 = "32 word"
type_synonym u64 = "64 word"

definition sizeof :: "'a::len itself \<Rightarrow> nat" where
  "sizeof T = LENGTH('a) div 8"

section \<open>ByteOrderCodec\<close>

subsection \<open>byteswap\<close>

text \<open>
  \<^verbatim>\<open>__builtin_bswap16/32/64\<close> are builtins of the compiler, not code of the repository.
  They are modelled by the usual shift-and-mask expressions; that these reverse the
  bytes is proved below, not assumed.
\<close>

definition bswap16 :: "u16 \<Rightarrow> u16" where
  "bswap16 n = push_bit 8 n OR drop_bit 8 n"

definition bswap32 :: "u32 \<Rightarrow> u32" where
  "bswap32 n =
     push_bit 24 n OR push_bit 8 (n AND 0xFF00) OR
     (drop_bit 8 n AND 0xFF00) OR drop_bit 24 n"

definition bswap64 :: "u64 \<Rightarrow> u64" where
  "bswap64 n =
     push_bit 56 n OR push_bit 40 (n AND 0xFF00) OR
     push_bit 24 (n AND 0xFF0000) OR push_bit 8 (n AND 0xFF000000) OR
     (drop_bit 8 n AND 0xFF000000) OR (drop_bit 24 n AND 0xFF0000) OR
     (drop_bit 40 n AND 0xFF00) OR drop_bit 56 n"

text \<open>
  The four overloads \<^verbatim>\<open>byteswap(uint8_t)\<close> ... \<^verbatim>\<open>byteswap(uint64_t)\<close> of lines 294-297.
  Overload resolution picks one by the argument's type; here the width of the word
  picks it. No overload exists for another width (the call would not compile), and the
  model returns its argument there.
\<close>

definition byteswap :: "'a::len word \<Rightarrow> 'a word" where
  "byteswap n =
     (if LENGTH('a) = 8 then n
      else if LENGTH('a) = 16 then ucast (bswap16 (ucast n))
      else if LENGTH('a) = 32 then ucast (bswap32 (ucast n))
      else if LENGTH('a) = 64 then ucast (bswap64 (ucast n))
      else n)"

subsection \<open>encode_uint16, encode_uint32\<close>

definition encode_uint16 :: "u8 \<Rightarrow> u8 \<Rightarrow> u16" where
  "encode_uint16 msb lsb = push_bit 8 (ucast msb) OR ucast lsb"

definition encode_uint32 :: "u8 \<Rightarrow> u8 \<Rightarrow> u8 \<Rightarrow> u8 \<Rightarrow> u32" where
  "encode_uint32 byte1 byte2 byte3 byte4 =
     push_bit 24 (ucast byte1) OR push_bit 16 (ucast byte2) OR
     push_bit 8 (ucast byte3) OR ucast byte4"

subsection \<open>encode_value, decode_value\<close>

text \<open>
  \<^verbatim>\<open>encode_value<T>(bytes)\<close> reads \<^verbatim>\<open>bytes[0 .. sizeof(T))\<close>: the loop runs over the first
  \<^verbatim>\<open>sizeof(T)\<close> bytes, with \<^verbatim>\<open>val <<= 8; val |= bytes[i]\<close> as its body. The array has
  at least \<^verbatim>\<open>sizeof(T)\<close> bytes by the function's contract (exactly so, by its type, in
  the \<^verbatim>\<open>std::array\<close> overload).
\<close>

fun encode_value_loop :: "u8 list \<Rightarrow> 'a::len word \<Rightarrow> 'a word" where
  "encode_value_loop [] val = val"
| "encode_value_loop (b # bs) val = encode_value_loop bs (push_bit 8 val OR ucast b)"

definition encode_value :: "u8 list \<Rightarrow> 'a::len word" where
  "encode_value bytes = encode_value_loop (take (sizeof TYPE('a)) bytes) 0"

text \<open>
  \<^verbatim>\<open>decode_value(val)\<close>: \<^verbatim>\<open>for (i = sizeof(T); i > 0; i--) { ret[i - 1] = val & 0xFF;
  val >>= 8; }\<close> on a zero-initialised array of \<^verbatim>\<open>sizeof(T)\<close> bytes.
\<close>

fun decode_value_loop :: "nat \<Rightarrow> 'a::len word \<Rightarrow> u8 list \<Rightarrow> u8 list" where
  "decode_value_loop 0 val ret = ret"
| "decode_value_loop (Suc i) val ret =
     decode_value_loop i (drop_bit 8 val) (ret[i := ucast (val AND 0xFF)])"

definition decode_value :: "'a::len word \<Rightarrow> u8 list" where
  "decode_value val =
     decode_value_loop (sizeof TYPE('a)) val (replicate (sizeof TYPE('a)) 0)"

subsection \<open>reverse_bits\<close>

text \<open>
  The three overloads of lines 340-354. The 8-bit form reassigns \<^verbatim>\<open>x\<close> three times;
  the wider forms reverse their halves and exchange them. The operands are promoted to
  \<^verbatim>\<open>int\<close> in C++; no intermediate value of the 8- and 16-bit forms leaves the width
  of the result, and the 32-bit form is converted back to \<^verbatim>\<open>uint32_t\<close> on return, so
  the words of the result type compute the same values.
\<close>

definition reverse_bits8 :: "u8 \<Rightarrow> u8" where
  "reverse_bits8 x0 =
     (let x1 = drop_bit 1 (x0 AND 0xAA) OR push_bit 1 (x0 AND 0x55);
          x2 = drop_bit 2 (x1 AND 0xCC) OR push_bit 2 (x1 AND 0x33);
          x3 = drop_bit 4 (x2 AND 0xF0) OR push_bit 4 (x2 AND 0x0F)
      in x3)"

definition reverse_bits16 :: "u16 \<Rightarrow> u16" where
  "reverse_bits16 x =
     push_bit 8 (ucast (reverse_bits8 (ucast (x AND 0xFF)))) OR
     ucast (reverse_bits8 (ucast (drop_bit 8 x AND 0xFF)))"

definition reverse_bits32 :: "u32 \<Rightarrow> u32" where
  "reverse_bits32 x =
     push_bit 16 (ucast (reverse_bits16 (ucast (x AND 0xFFFF)))) OR
     ucast (reverse_bits16 (ucast (drop_bit 16 x AND 0xFFFF)))"

subsection \<open>convert_big_endian\<close>

text \<open>
  \<^verbatim>\<open>__BYTE_ORDER__\<close> is fixed by the target; the model takes it as the parameter
  \<open>little_endian\<close>, so that every statement holds for both kinds of host.
\<close>

definition convert_big_endian :: "bool \<Rightarrow> 'a::len word \<Rightarrow> 'a word" where
  "convert_big_endian little_endian val = (if little_endian then byteswap val else val)"

text \<open>
  Where bit \<open>n\<close> of a value of \<open>W\<close> bytes comes from when the order of its bytes is
  reversed: the same bit of the mirrored byte.
\<close>

definition swap_pos :: "nat \<Rightarrow> nat \<Rightarrow> nat" where
  "swap_pos W n = 8 * (W - 1 - n div 8) + n mod 8"

section \<open>HexCodec\<close>

subsection \<open>The buffer form of parse_hex\<close>

text \<open>
  \<^verbatim>\<open>helpers.h\<close> declares \<^verbatim>\<open>size_t parse_hex(const char *str, size_t len, uint8_t *data,
  size_t count)\<close> with its contract (lines 439-450: the result goes to the back of
  \<^verbatim>\<open>data\<close> when \<^verbatim>\<open>len < 2 * count\<close>, and the return value is the number of characters
  parsed); the body is in \<^verbatim>\<open>helpers.cpp\<close>, which is not among the sources.

  A string is the list of its characters before the terminator, so \<^verbatim>\<open>strlen\<close> and
  \<^verbatim>\<open>std::string::length\<close> are \<open>length\<close>; reading at or behind the end yields the
  terminator. The buffer form takes the values of its two \<^verbatim>\<open>size_t\<close> arguments as natural
  numbers, as the spec describes it; the strict form below, which is in the header,
  computes \<^verbatim>\<open>2 * count\<close> in \<^verbatim>\<open>size_t\<close>.
\<close>

definition char_at :: "string \<Rightarrow> nat \<Rightarrow> char" where
  "char_at str i = (if i < length str then str ! i else CHR 0x00)"

text \<open>
  Modelled from the spec: the digit test of the missing body of the buffer form, with the
  value of the digit. The spec names lower case the canonical form of hex text and
  leaves upper case open; both are taken as digits here.
\<close>

definition hex_digit :: "char \<Rightarrow> u8 option" where
  "hex_digit c =
     (let n = (of_char c :: nat) in
      if 48 \<le> n \<and> n \<le> 57 then Some (of_nat (n - 48))
      else if 97 \<le> n \<and> n \<le> 102 then Some (of_nat (n - 87))
      else if 65 \<le> n \<and> n \<le> 70 then Some (of_nat (n - 55))
      else None)"

text \<open>A character is a hex digit when it has a digit value.\<close>

definition is_hex :: "char \<Rightarrow> bool" where
  "is_hex c = (hex_digit c \<noteq> None)"

text \<open>
  Modelled from the spec: the store of one digit in the missing body of the buffer form.
  Digit number \<open>i\<close> of the padded text is the high half of byte \<open>i div 2\<close> when \<open>i\<close> is
  even and its low half when \<open>i\<close> is odd.
\<close>

definition put_nibble :: "u8 list \<Rightarrow> nat \<Rightarrow> u8 \<Rightarrow> u8 list" where
  "put_nibble data i v =
     data[i div 2 := (if even i then push_bit 4 v else (data ! (i div 2)) OR v)]"

text \<open>
  Modelled from the spec: the loop of the missing body of the buffer form. Parsing stops
  at the first character that is no hex digit; the count is the number of characters
  consumed before it.
\<close>

fun parse_hex_digits :: "char list \<Rightarrow> nat \<Rightarrow> u8 list \<Rightarrow> nat \<times> u8 list" where
  "parse_hex_digits [] i data = (0, data)"
| "parse_hex_digits (c # cs) i data =
     (case hex_digit c of
        None \<Rightarrow> (0, data)
      | Some v \<Rightarrow>
          (case parse_hex_digits cs (Suc i) (put_nibble data i v) of
             (n, data') \<Rightarrow> (Suc n, data')))"

text \<open>
  The buffer after \<open>k\<close> digits \<^verbatim>\<open>'0'\<close> have been written from digit \<open>i\<close> on: what the
  padding would write, were it parsed.
\<close>

fun zero_fill :: "nat \<Rightarrow> nat \<Rightarrow> u8 list \<Rightarrow> u8 list" where
  "zero_fill 0 i data = data"
| "zero_fill (Suc k) i data = zero_fill k (Suc i) (put_nibble data i 0)"

text \<open>
  Modelled from the spec: the body of the buffer form \<^verbatim>\<open>parse_hex(str, len, data, count)\<close>
  of \<^verbatim>\<open>helpers.cpp\<close>. At most \<open>min len (2 * count)\<close> characters are examined; they are
  written as the last digits of the \<open>2 * count\<close> digits of \<open>data\<close>, as though the text had
  been padded with \<^verbatim>\<open>'0'\<close> at the front. Bytes wholly in front of the first digit keep
  their value; a byte whose low half is the first digit gets the padding digit 0 as its
  high half. The result is the number of characters consumed and the buffer.
\<close>

definition parse_hex :: "string \<Rightarrow> nat \<Rightarrow> u8 list \<Rightarrow> nat \<Rightarrow> nat \<times> u8 list" where
  "parse_hex str len data count =
     (let chars = min len (2 * count);
          start = 2 * count - chars;
          data0 = (if odd start then data[start div 2 := 0] else data)
      in parse_hex_digits (map (char_at str) [0..<chars]) start data0)"

subsection \<open>The strict form\<close>

text \<open>
  Lines 452-458: \<^verbatim>\<open>parse_hex(str, data, count)\<close> for a C string and for a
  \<^verbatim>\<open>std::string\<close>; both pass the length of the string and compare the count returned
  with \<^verbatim>\<open>2 * count\<close>. All of these are \<^verbatim>\<open>size_t\<close> values: a word of the width \<open>'s\<close>
  of the target, so that \<^verbatim>\<open>2 * count\<close> wraps as in the source. \<^verbatim>\<open>strlen(str)\<close> and
  \<^verbatim>\<open>str.length()\<close> are the length of the string as a \<^verbatim>\<open>size_t\<close>. The model returns the
  truth value and the buffer.
\<close>

definition strlen :: "string \<Rightarrow> 's::len word" where
  "strlen str = word_of_nat (length str)"

definition parse_hex_strict :: "string \<Rightarrow> u8 list \<Rightarrow> 's::len word \<Rightarrow> bool \<times> u8 list" where
  "parse_hex_strict str data count =
     (case parse_hex str (unat (strlen str :: 's word)) data (unat count) of
        (n, data') \<Rightarrow> ((word_of_nat n :: 's word) = 2 * count, data'))"

subsection \<open>The typed overload\<close>




text \<open>The number a sequence of bytes denotes, most significant byte first.\<close>

definition be_nat :: "u8 list \<Rightarrow> nat \<Rightarrow> nat" where
  "be_nat bytes acc = foldl (\<lambda>acc b. 256 * acc + unat b) acc bytes"


section \<open>TieredAllocator\<close>

text \<open>
  \<^verbatim>\<open>ExternalRAMAllocator<T>::allocate\<close>, lines 544-555. A pointer is an address or
  \<^verbatim>\<open>nullptr\<close> (\<open>None\<close>). \<^verbatim>\<open>heap_caps_malloc(size, MALLOC_CAP_SPIRAM)\<close> and \<^verbatim>\<open>malloc\<close>
  belong to the platform: each is a parameter, the answer of its pool to a request of
  \<open>size\<close> bytes. \<^verbatim>\<open>USE_ESP32\<close> is the parameter \<open>use_esp32\<close>. \<^verbatim>\<open>size_t\<close> is a word, so
  \<^verbatim>\<open>n * sizeof(T)\<close> wraps as in the source. The result carries the requests made, in
  order, and either the pointer returned or the call of \<^verbatim>\<open>abort()\<close>.
\<close>

type_synonym pointer = "nat option"

datatype 'size pool_request = TrySpiram 'size | TryHeap 'size

datatype outcome = Returned pointer | Aborted

definition NONE :: u32 where
  "NONE = 0"

definition REFUSE_INTERNAL :: u32 where
  "REFUSE_INTERNAL = push_bit 0 1"

definition ALLOW_FAILURE :: u32 where
  "ALLOW_FAILURE = push_bit 1 1"

definition allocate ::
  "bool \<Rightarrow> u32 \<Rightarrow> 's::len word \<Rightarrow> ('s word \<Rightarrow> pointer) \<Rightarrow> ('s word \<Rightarrow> pointer) \<Rightarrow>
   's word \<Rightarrow> 's word pool_request list \<times> outcome" where
  "allocate use_esp32 flags sizeof_T heap_caps_malloc_spiram malloc n =
     (let size = n * sizeof_T;
          ptr0 = None;
          (ptr1, reqs1) =
            (if use_esp32 then (heap_caps_malloc_spiram size, [TrySpiram size])
             else (ptr0, []));
          (ptr2, reqs2) =
            (if ptr1 = None \<and> flags AND REFUSE_INTERNAL = 0
             then (malloc size, reqs1 @ [TryHeap size])
             else (ptr1, reqs1))
      in if ptr2 = None \<and> flags AND ALLOW_FAILURE = 0 then (reqs2, Aborted)
         else (reqs2, Returned ptr2))"

text \<open>
  The spec's words for a platform without the secondary pool: a primary-heap allocation
  with the same failure policy. This is the reference the source is compared with.
\<close>

definition spec_heap_allocate ::
  "u32 \<Rightarrow> 's::len word \<Rightarrow> ('s word \<Rightarrow> pointer) \<Rightarrow> 's word \<Rightarrow>
   's word pool_request list \<times> outcome" where
  "spec_heap_allocate flags sizeof_T malloc n =
     (let size = n * sizeof_T; ptr = malloc size
      in if ptr = None \<and> flags AND ALLOW_FAILURE = 0 then ([TryHeap size], Aborted)
         else ([TryHeap size], Returned ptr))"

text \<open>Two pools for concrete runs: one that is exhausted, one that answers with an address.\<close>

definition pool_exhausted :: "'s::len word \<Rightarrow> pointer" where
  "pool_exhausted nbytes = None"

definition pool_at :: "nat \<Rightarrow> 's::len word \<Rightarrow> pointer" where
  "pool_at addr nbytes = Some addr"

section \<open>Properties of the byte order codec\<close>

subsection \<open>Masks and bits\<close>

lemma and_FF: "(x :: 'a::len word) AND 0xFF = take_bit 8 x"
  by (simp add: take_bit_eq_mask mask_eq_exp_minus_1)

lemma and_FFFF: "(x :: 'a::len word) AND 0xFFFF = take_bit 16 x"
  by (simp add: take_bit_eq_mask mask_eq_exp_minus_1)

lemma ucast_and_FF: "ucast ((x :: 'a::len word) AND 0xFF) = (ucast x :: u8)"
  by (auto simp add: and_FF bit_eq_iff bit_simps dest: bit_imp_le_length)

lemma bit_out_of_range: "LENGTH('a::len) \<le> n \<Longrightarrow> bit (w :: 'a word) n = False"
  by (auto dest: bit_imp_le_length)

lemma sizeof_bound: "8 * sizeof TYPE('a::len) \<le> LENGTH('a)"
  by (simp add: sizeof_def)

lemma sizeof_simps [simp]:
  "sizeof TYPE(8) = 1" "sizeof TYPE(16) = 2" "sizeof TYPE(32) = 4" "sizeof TYPE(64) = 8"
  by (simp_all add: sizeof_def)

lemma sizeof_widths:
  "LENGTH('a::len) \<in> {8, 16, 32, 64} \<Longrightarrow> LENGTH('a) = 8 * sizeof TYPE('a)"
  by (auto simp add: sizeof_def)

subsection \<open>The loops of encode_value and decode_value\<close>

text \<open>
  Bit \<open>n\<close> of the encoded value is bit \<open>n mod 8\<close> of the byte \<open>n div 8\<close> places from the
  end; what was in \<open>val\<close> before has moved up by the bytes read.
\<close>

lemma bit_encode_value_loop:
  "bit (encode_value_loop bs (val :: 'a::len word)) n \<longleftrightarrow>
     n < LENGTH('a) \<and>
     (if n < 8 * length bs then bit (rev bs ! (n div 8)) (n mod 8)
      else bit val (n - 8 * length bs))"
proof (induction bs arbitrary: val n)
  case Nil
  then show ?case by (auto simp: bit_imp_le_length)
next
  case (Cons b bs)
  let ?k = "8 * length bs"
  consider "n < ?k" | "?k \<le> n" "n < ?k + 8" | "?k + 8 \<le> n" by linarith
  then show ?case
  proof cases
    case 1
    then have "n div 8 < length (rev bs)" by simp
    with 1 show ?thesis by (simp add: Cons.IH nth_append)
  next
    case 2
    define r where "r = n - ?k"
    with 2 have n: "n = ?k + r" and r: "r < 8" by simp_all
    from r have d: "n div 8 = length bs" and m: "n mod 8 = r" by (simp_all add: n)
    from 2 r d m show ?thesis
      by (auto simp add: Cons.IH nth_append bit_simps r_def)
  next
    case 3
    then have "\<not> bit b (n - ?k)" by (auto dest: bit_imp_le_length)
    moreover have "n - ?k - 8 = n - (8 + ?k)" by simp
    ultimately show ?thesis using 3
      by (auto simp add: Cons.IH bit_simps)
  qed
qed

lemma decode_value_loop_length: "length (decode_value_loop n val ret) = length ret"
  by (induction n val ret rule: decode_value_loop.induct) auto

lemma decode_value_loop_nth:
  "n \<le> length ret \<Longrightarrow> j < length ret \<Longrightarrow>
   decode_value_loop n (val :: 'a::len word) ret ! j =
     (if j < n then ucast (drop_bit (8 * (n - 1 - j)) val) else ret ! j)"
proof (induction n val ret rule: decode_value_loop.induct)
  case (1 val ret)
  then show ?case by simp
next
  case (2 i val ret)
  consider "j < i" | "j = i" | "i < j" by linarith
  then show ?case
  proof cases
    case 1
    then have "8 * (i - Suc j) + 8 = 8 * (i - j)" by simp
    with 1 2 show ?thesis by simp
  next
    case 2
    with "2.prems" "2.IH" show ?thesis by (simp add: ucast_and_FF)
  next
    case 3
    with 2 show ?thesis by simp
  qed
qed

lemma length_decode_value [simp]:
  "length (decode_value (x :: 'a::len word)) = sizeof TYPE('a)"
  by (simp add: decode_value_def decode_value_loop_length)

lemma decode_value_nth:
  "j < sizeof TYPE('a) \<Longrightarrow>
   decode_value (x :: 'a::len word) ! j =
     ucast (drop_bit (8 * (sizeof TYPE('a) - 1 - j)) x)"
  by (simp add: decode_value_def decode_value_loop_nth)

lemma bit_encode_value:
  assumes "length bs = sizeof TYPE('a::len)"
  shows "bit (encode_value bs :: 'a word) n \<longleftrightarrow>
           n < 8 * length bs \<and> bit (rev bs ! (n div 8)) (n mod 8)"
proof -
  from assms sizeof_bound [where 'a = 'a] have "8 * length bs \<le> LENGTH('a)" by simp
  with assms show ?thesis
    by (auto simp add: encode_value_def bit_encode_value_loop)
qed

lemma decode_encode_value:
  assumes "length b = sizeof TYPE('a::len)"
  shows "decode_value (encode_value b :: 'a word) = b"
proof (rule nth_equalityI)
  show "length (decode_value (encode_value b :: 'a word)) = length b"
    using assms by simp
next
  fix j assume "j < length (decode_value (encode_value b :: 'a word))"
  with assms have j: "j < length b" by simp
  let ?n = "length b"
  let ?k = "8 * (?n - 1 - j)"
  have "ucast (drop_bit ?k (encode_value b :: 'a word)) = b ! j"
  proof (rule bit_eqI)
    fix m assume "possible_bit TYPE(u8) m"
    then have m: "m < 8" by (simp add: possible_bit_word)
    with j have lt: "?k + m < 8 * ?n" by simp
    from m have d: "(?k + m) div 8 = ?n - 1 - j" and r: "(?k + m) mod 8 = m" by simp_all
    from j have "rev b ! (?n - 1 - j) = b ! j" by (simp add: rev_nth)
    with m lt d r assms
    show "bit (ucast (drop_bit ?k (encode_value b :: 'a word)) :: u8) m = bit (b ! j) m"
      by (simp add: bit_simps bit_encode_value)
  qed
  with j assms show "decode_value (encode_value b :: 'a word) ! j = b ! j"
    by (simp add: decode_value_nth)
qed

lemma encode_decode_value:
  assumes "LENGTH('a::len) = 8 * sizeof TYPE('a)"
  shows "encode_value (decode_value v) = (v :: 'a word)"
proof (rule bit_eqI)
  fix m assume "possible_bit TYPE('a word) m"
  then have m: "m < LENGTH('a)" by (simp add: possible_bit_word)
  let ?n = "sizeof TYPE('a)"
  from m assms have dn: "m div 8 < ?n" by simp
  then have "rev (decode_value v) ! (m div 8) = decode_value v ! (?n - 1 - m div 8)"
    by (simp add: rev_nth)
  also from dn have "\<dots> = ucast (drop_bit (8 * (m div 8)) v)"
    by (simp add: decode_value_nth)
  finally have *: "rev (decode_value v) ! (m div 8) = (ucast (drop_bit (8 * (m div 8)) v) :: u8)" .
  from m assms have "m < 8 * ?n" by simp
  with m show "bit (encode_value (decode_value v) :: 'a word) m = bit v m"
    by (simp add: bit_encode_value * bit_simps)
qed

text \<open>
  C4. For each of the widths 1, 2, 4 and 8, decoding the encoded value of \<open>sizeof(T)\<close>
  bytes gives the bytes back, encoding the decoded bytes of a value gives the value
  back, and a value decodes to \<open>sizeof(T)\<close> bytes: the two functions are inverse
  bijections between the byte sequences of that length and the integers of that width.
\<close>

theorem encode_decode_bijection:
  assumes "LENGTH('a::len) \<in> {8, 16, 32, 64}" and "length b = sizeof TYPE('a)"
  shows "decode_value (encode_value b :: 'a word) = b \<and>
         encode_value (decode_value v) = (v :: 'a word) \<and>
         length (decode_value v) = sizeof TYPE('a)"
  using assms by (simp add: decode_encode_value encode_decode_value sizeof_widths)

theorem encode_decode_bijection_witness:
  "LENGTH(32) \<in> {8, 16, 32, 64 :: nat} \<and>
   length [0x12, 0x34, 0x56, 0x78 :: u8] = sizeof TYPE(32) \<and>
   decode_value (encode_value [0x12, 0x34, 0x56, 0x78] :: u32) = [0x12, 0x34, 0x56, 0x78] \<and>
   encode_value (decode_value (0x12345678 :: u32)) = (0x12345678 :: u32) \<and>
   length (decode_value (0x12345678 :: u32)) = sizeof TYPE(32)"
  using encode_decode_bijection [where 'a = 32, of "[0x12, 0x34, 0x56, 0x78]" "0x12345678"]
  by simp

subsection \<open>byteswap\<close>

lemma mask_FF00: "(0xFF00 :: 'a::len word) = push_bit 8 (mask 8)"
  by (simp add: mask_eq_exp_minus_1 push_bit_eq_mult)
lemma mask_FF0000: "(0xFF0000 :: 'a::len word) = push_bit 16 (mask 8)"
  by (simp add: mask_eq_exp_minus_1 push_bit_eq_mult)
lemma mask_FF000000: "(0xFF000000 :: 'a::len word) = push_bit 24 (mask 8)"
  by (simp add: mask_eq_exp_minus_1 push_bit_eq_mult)

lemma byte_split: "r < 8 \<Longrightarrow> (8 * k + r) div 8 = k \<and> (8 * k + r) mod 8 = (r :: nat)"
  by simp

lemma bit_bswap16: "bit (bswap16 x) n \<longleftrightarrow> n < 16 \<and> bit x (swap_pos 2 n)"
proof -
  consider "n < 8" | "8 \<le> n" "n < 16" | "16 \<le> n"
    by linarith
  then show ?thesis
  proof cases
    case 1
    define r where "r = n - 0"
    with 1 have n: "n = 0 + r" and r: "r < 8" by simp_all
    from r byte_split [of r 0] show ?thesis
      by (simp add: n bswap16_def swap_pos_def bit_simps  bit_out_of_range)
  next
    case 2
    define r where "r = n - 8"
    with 2 have n: "n = 8 + r" and r: "r < 8" by simp_all
    from r byte_split [of r 1] show ?thesis
      by (simp add: n bswap16_def swap_pos_def bit_simps  bit_out_of_range)
  next
    case 3
    then show ?thesis by (simp add: bit_out_of_range)
  qed
qed

lemma bit_bswap32: "bit (bswap32 x) n \<longleftrightarrow> n < 32 \<and> bit x (swap_pos 4 n)"
proof -
  consider "n < 8" | "8 \<le> n" "n < 16" | "16 \<le> n" "n < 24" | "24 \<le> n" "n < 32" | "32 \<le> n"
    by linarith
  then show ?thesis
  proof cases
    case 1
    define r where "r = n - 0"
    with 1 have n: "n = 0 + r" and r: "r < 8" by simp_all
    from r byte_split [of r 0] show ?thesis
      by (simp add: n bswap32_def swap_pos_def bit_simps mask_FF00 bit_out_of_range)
  next
    case 2
    define r where "r = n - 8"
    with 2 have n: "n = 8 + r" and r: "r < 8" by simp_all
    from r byte_split [of r 1] show ?thesis
      by (simp add: n bswap32_def swap_pos_def bit_simps mask_FF00 bit_out_of_range)
  next
    case 3
    define r where "r = n - 16"
    with 3 have n: "n = 16 + r" and r: "r < 8" by simp_all
    from r byte_split [of r 2] show ?thesis
      by (simp add: n bswap32_def swap_pos_def bit_simps mask_FF00 bit_out_of_range)
  next
    case 4
    define r where "r = n - 24"
    with 4 have n: "n = 24 + r" and r: "r < 8" by simp_all
    from r byte_split [of r 3] show ?thesis
      by (simp add: n bswap32_def swap_pos_def bit_simps mask_FF00 bit_out_of_range)
  next
    case 5
    then show ?thesis by (simp add: bit_out_of_range)
  qed
qed

lemma bit_bswap64: "bit (bswap64 x) n \<longleftrightarrow> n < 64 \<and> bit x (swap_pos 8 n)"
proof -
  consider "n < 8" | "8 \<le> n" "n < 16" | "16 \<le> n" "n < 24" | "24 \<le> n" "n < 32" | "32 \<le> n" "n < 40" | "40 \<le> n" "n < 48" | "48 \<le> n" "n < 56" | "56 \<le> n" "n < 64" | "64 \<le> n"
    by linarith
  then show ?thesis
  proof cases
    case 1
    define r where "r = n - 0"
    with 1 have n: "n = 0 + r" and r: "r < 8" by simp_all
    from r byte_split [of r 0] show ?thesis
      by (simp add: n bswap64_def swap_pos_def bit_simps mask_FF00 mask_FF0000 mask_FF000000 bit_out_of_range)
  next
    case 2
    define r where "r = n - 8"
    with 2 have n: "n = 8 + r" and r: "r < 8" by simp_all
    from r byte_split [of r 1] show ?thesis
      by (simp add: n bswap64_def swap_pos_def bit_simps mask_FF00 mask_FF0000 mask_FF000000 bit_out_of_range)
  next
    case 3
    define r where "r = n - 16"
    with 3 have n: "n = 16 + r" and r: "r < 8" by simp_all
    from r byte_split [of r 2] show ?thesis
      by (simp add: n bswap64_def swap_pos_def bit_simps mask_FF00 mask_FF0000 mask_FF000000 bit_out_of_range)
  next
    case 4
    define r where "r = n - 24"
    with 4 have n: "n = 24 + r" and r: "r < 8" by simp_all
    from r byte_split [of r 3] show ?thesis
      by (simp add: n bswap64_def swap_pos_def bit_simps mask_FF00 mask_FF0000 mask_FF000000 bit_out_of_range)
  next
    case 5
    define r where "r = n - 32"
    with 5 have n: "n = 32 + r" and r: "r < 8" by simp_all
    from r byte_split [of r 4] show ?thesis
      by (simp add: n bswap64_def swap_pos_def bit_simps mask_FF00 mask_FF0000 mask_FF000000 bit_out_of_range)
  next
    case 6
    define r where "r = n - 40"
    with 6 have n: "n = 40 + r" and r: "r < 8" by simp_all
    from r byte_split [of r 5] show ?thesis
      by (simp add: n bswap64_def swap_pos_def bit_simps mask_FF00 mask_FF0000 mask_FF000000 bit_out_of_range)
  next
    case 7
    define r where "r = n - 48"
    with 7 have n: "n = 48 + r" and r: "r < 8" by simp_all
    from r byte_split [of r 6] show ?thesis
      by (simp add: n bswap64_def swap_pos_def bit_simps mask_FF00 mask_FF0000 mask_FF000000 bit_out_of_range)
  next
    case 8
    define r where "r = n - 56"
    with 8 have n: "n = 56 + r" and r: "r < 8" by simp_all
    from r byte_split [of r 7] show ?thesis
      by (simp add: n bswap64_def swap_pos_def bit_simps mask_FF00 mask_FF0000 mask_FF000000 bit_out_of_range)
  next
    case 9
    then show ?thesis by (simp add: bit_out_of_range)
  qed
qed

lemma swap_pos_less: "n < 8 * W \<Longrightarrow> swap_pos W n < 8 * W"
proof -
  assume a: "n < 8 * W"
  then have "n div 8 < W" by simp
  then have "8 * (W - 1 - n div 8) + 8 \<le> 8 * W" by simp
  moreover have "n mod 8 < 8" by simp
  ultimately show ?thesis unfolding swap_pos_def by linarith
qed

lemma swap_pos_swap_pos: "n < 8 * W \<Longrightarrow> swap_pos W (swap_pos W n) = n"
proof -
  assume a: "n < 8 * W"
  then have d: "n div 8 < W" by simp
  have "(8 * (W - 1 - n div 8) + n mod 8) div 8 = W - 1 - n div 8" by simp
  moreover have "(8 * (W - 1 - n div 8) + n mod 8) mod 8 = n mod 8" by simp
  moreover from d have "W - 1 - (W - 1 - n div 8) = n div 8" by simp
  ultimately show ?thesis by (simp add: swap_pos_def)
qed

lemma swap_pos_byte: "j < W \<Longrightarrow> m < 8 \<Longrightarrow> swap_pos W (8 * (W - 1 - j) + m) = 8 * j + m"
proof -
  assume "j < W" "m < 8"
  then have "(8 * (W - 1 - j) + m) div 8 = W - 1 - j" "(8 * (W - 1 - j) + m) mod 8 = m"
    "W - 1 - (W - 1 - j) = j" by simp_all
  then show ?thesis by (simp add: swap_pos_def)
qed

lemma bit_byteswap:
  assumes "LENGTH('a::len) \<in> {8, 16, 32, 64}"
  shows "bit (byteswap (x :: 'a word)) n \<longleftrightarrow>
           n < LENGTH('a) \<and> bit x (swap_pos (sizeof TYPE('a)) n)"
proof -
  consider "LENGTH('a) = 8" | "LENGTH('a) = 16" | "LENGTH('a) = 32" | "LENGTH('a) = 64"
    using assms by auto
  then show ?thesis
  proof cases
    case 1
    show ?thesis
    proof (cases "n < 8")
      case True
      then have "swap_pos 1 n = n" by (simp add: swap_pos_def)
      with 1 True show ?thesis by (simp add: byteswap_def sizeof_def)
    next
      case False
      with 1 show ?thesis by (simp add: bit_out_of_range)
    qed
  next
    case 2
    have "swap_pos 2 n < 16" if "n < 16" using swap_pos_less[of n 2] that by simp
    with 2 show ?thesis
      by (auto simp add: byteswap_def sizeof_def bit_simps bit_bswap16)
  next
    case 3
    have "swap_pos 4 n < 32" if "n < 32" using swap_pos_less[of n 4] that by simp
    with 3 show ?thesis
      by (auto simp add: byteswap_def sizeof_def bit_simps bit_bswap32)
  next
    case 4
    have "swap_pos 8 n < 64" if "n < 64" using swap_pos_less[of n 8] that by simp
    with 4 show ?thesis
      by (auto simp add: byteswap_def sizeof_def bit_simps bit_bswap64)
  qed
qed

lemma byteswap_byteswap:
  assumes "LENGTH('a::len) \<in> {8, 16, 32, 64}"
  shows "byteswap (byteswap x) = (x :: 'a word)"
proof (rule bit_eqI)
  fix n assume "possible_bit TYPE('a word) n"
  then have n: "n < LENGTH('a)" by (simp add: possible_bit_word)
  let ?W = "sizeof TYPE('a)"
  from assms have L: "LENGTH('a) = 8 * ?W" by (rule sizeof_widths)
  with n have "swap_pos ?W n < LENGTH('a)" "swap_pos ?W (swap_pos ?W n) = n"
    by (simp_all add: swap_pos_less swap_pos_swap_pos)
  with n show "bit (byteswap (byteswap x)) n = bit x n"
    by (simp add: bit_byteswap [OF assms])
qed

lemma decode_value_byteswap:
  assumes "LENGTH('a::len) \<in> {8, 16, 32, 64}"
  shows "decode_value (byteswap x) = rev (decode_value (x :: 'a word))"
proof (rule nth_equalityI)
  show "length (decode_value (byteswap x)) = length (rev (decode_value x))" by simp
next
  let ?W = "sizeof TYPE('a)"
  from assms have L: "LENGTH('a) = 8 * ?W" by (rule sizeof_widths)
  fix j assume "j < length (decode_value (byteswap x))"
  then have j: "j < ?W" by simp
  then have j': "?W - 1 - j < ?W" "?W - Suc j < ?W" "?W - 1 - (?W - 1 - j) = j" by simp_all
  have "ucast (drop_bit (8 * (?W - 1 - j)) (byteswap x)) = (ucast (drop_bit (8 * j) x) :: u8)"
  proof (rule bit_eqI)
    fix m assume "possible_bit TYPE(u8) m"
    then have m: "m < 8" by (simp add: possible_bit_word)
    with j have "8 * (?W - 1 - j) + m < 8 * ?W" by simp
    with L have "8 * (?W - 1 - j) + m < LENGTH('a)" by simp
    moreover from j m have "swap_pos ?W (8 * (?W - 1 - j) + m) = 8 * j + m"
      by (rule swap_pos_byte)
    ultimately show "bit (ucast (drop_bit (8 * (?W - 1 - j)) (byteswap x)) :: u8) m =
        bit (ucast (drop_bit (8 * j) x) :: u8) m"
      using m j by (simp add: bit_simps bit_byteswap [OF assms])
  qed
  with j j' show "decode_value (byteswap x) ! j = rev (decode_value x) ! j"
    by (simp add: rev_nth decode_value_nth)
qed

lemma convert_big_endian_twice:
  assumes "LENGTH('a::len) \<in> {8, 16, 32, 64}"
  shows "convert_big_endian le (convert_big_endian le x) = (x :: 'a word)"
  by (simp add: convert_big_endian_def byteswap_byteswap [OF assms])

text \<open>
  C7. For a value \<open>x\<close> of width 1, 2, 4 or 8 bytes: \<open>convert_big_endian\<close> applied twice
  gives \<open>x\<close> back on a little-endian and on a big-endian host; \<open>byteswap\<close> applied twice
  gives \<open>x\<close> back; the bytes of \<open>byteswap x\<close>, most significant first, are the bytes of
  \<open>x\<close> in reverse order; and \<open>byteswap\<close> leaves a value of one byte as it is.
\<close>

theorem byte_order_involutions:
  assumes "LENGTH('a::len) \<in> {8, 16, 32, 64}"
  shows "convert_big_endian little_endian (convert_big_endian little_endian x) = (x :: 'a word) \<and>
         byteswap (byteswap x) = x \<and>
         decode_value (byteswap x) = rev (decode_value x) \<and>
         byteswap (y :: u8) = y"
proof -
  have "byteswap y = y" by (simp add: byteswap_def)
  with assms show ?thesis
    by (simp add: convert_big_endian_twice byteswap_byteswap decode_value_byteswap)
qed

theorem byte_order_involutions_witness:
  "LENGTH(32) \<in> {8, 16, 32, 64 :: nat} \<and>
   convert_big_endian True (convert_big_endian True (0x12345678 :: u32)) = 0x12345678 \<and>
   byteswap (byteswap (0x12345678 :: u32)) = 0x12345678 \<and>
   decode_value (byteswap (0x12345678 :: u32)) = rev (decode_value (0x12345678 :: u32)) \<and>
   byteswap (0xAB :: u8) = 0xAB"
  using byte_order_involutions [where 'a = 32, of True "0x12345678" "0xAB"]
  by simp

subsection \<open>reverse_bits\<close>

lemma nat_less_8_cases:
  assumes "n < (8 :: nat)"
  obtains "n = 0" | "n = 1" | "n = 2" | "n = 3" | "n = 4" | "n = 5" | "n = 6" | "n = 7"
  using assms by arith

lemma bit_double_word:
  "bit (x * 2 :: 'a::len word) n \<longleftrightarrow> 0 < n \<and> n < LENGTH('a) \<and> bit x (n - 1)"
proof -
  have "x * 2 = push_bit 1 x" by (simp add: push_bit_eq_mult)
  then show ?thesis by (simp only: bit_simps) auto
qed

lemma bit_reverse_bits8: "bit (reverse_bits8 x) n \<longleftrightarrow> n < 8 \<and> bit x (7 - n)"
proof (cases "n < 8")
  case False
  then show ?thesis by (simp add: bit_out_of_range)
next
  case True
  then show ?thesis
    by (cases rule: nat_less_8_cases)
      (simp_all add: reverse_bits8_def Let_def bit_simps bit_double_word)
qed

lemma bit_reverse_bits16: "bit (reverse_bits16 x) n \<longleftrightarrow> n < 16 \<and> bit x (15 - n)"
proof -
  consider "n < 8" | "8 \<le> n" "n < 16" | "16 \<le> n" by linarith
  then show ?thesis
  proof cases
    case 1
    then have "8 + (7 - n) = 15 - n" by simp
    with 1 show ?thesis
      by (auto simp add: reverse_bits16_def and_FF bit_simps bit_reverse_bits8)
  next
    case 2
    then have "7 - (n - 8) = 15 - n" by simp
    with 2 show ?thesis
      by (auto simp add: reverse_bits16_def and_FF bit_simps bit_reverse_bits8)
  next
    case 3
    then show ?thesis by (simp add: bit_out_of_range)
  qed
qed

lemma bit_reverse_bits32: "bit (reverse_bits32 x) n \<longleftrightarrow> n < 32 \<and> bit x (31 - n)"
proof -
  consider "n < 16" | "16 \<le> n" "n < 32" | "32 \<le> n" by linarith
  then show ?thesis
  proof cases
    case 1
    then have "16 + (15 - n) = 31 - n" by simp
    with 1 show ?thesis
      by (auto simp add: reverse_bits32_def and_FFFF bit_simps bit_reverse_bits16)
  next
    case 2
    then have "15 - (n - 16) = 31 - n" by simp
    with 2 show ?thesis
      by (auto simp add: reverse_bits32_def and_FFFF bit_simps bit_reverse_bits16)
  next
    case 3
    then show ?thesis by (simp add: bit_out_of_range)
  qed
qed

lemma reverse_bits8_twice: "reverse_bits8 (reverse_bits8 x) = x"
  by (rule bit_eqI) (auto simp add: bit_reverse_bits8 possible_bit_word)

lemma reverse_bits16_twice: "reverse_bits16 (reverse_bits16 x) = x"
  by (rule bit_eqI) (auto simp add: bit_reverse_bits16 possible_bit_word)

lemma reverse_bits32_twice: "reverse_bits32 (reverse_bits32 x) = x"
  by (rule bit_eqI) (auto simp add: bit_reverse_bits32 possible_bit_word)

lemma reverse_bits_word_reverse:
  "reverse_bits8 x = word_reverse x" "reverse_bits16 y = word_reverse y"
  "reverse_bits32 z = word_reverse z"
  by (rule bit_eqI; simp add: bit_reverse_bits8 bit_reverse_bits16 bit_reverse_bits32 bit_simps)+

lemma reverse_bits_bytes:
  fixes f :: "'a::len word \<Rightarrow> 'a word"
  assumes bitrev: "\<And>n. bit (f x) n \<longleftrightarrow> n < LENGTH('a) \<and> bit x (LENGTH('a) - 1 - n)"
    and L: "LENGTH('a) = 8 * sizeof TYPE('a)"
  shows "decode_value (f x) = rev (map reverse_bits8 (decode_value x))"
proof (rule nth_equalityI)
  show "length (decode_value (f x)) = length (rev (map reverse_bits8 (decode_value x)))"
    by simp
next
  let ?W = "sizeof TYPE('a)"
  fix j assume "j < length (decode_value (f x))"
  then have j: "j < ?W" by simp
  then have j': "?W - 1 - j < ?W" "?W - Suc j < ?W" "?W - 1 - (?W - 1 - j) = j" by simp_all
  have "ucast (drop_bit (8 * (?W - 1 - j)) (f x)) =
        reverse_bits8 (ucast (drop_bit (8 * j) x))"
  proof (rule bit_eqI)
    fix m assume "possible_bit TYPE(u8) m"
    then have m: "m < 8" by (simp add: possible_bit_word)
    with j have lt: "8 * (?W - 1 - j) + m < 8 * ?W" by simp
    from j m have "8 * ?W - 1 - (8 * (?W - 1 - j) + m) = 8 * j + (7 - m)"
      by (simp add: algebra_simps) 
    with j m lt L show "bit (ucast (drop_bit (8 * (?W - 1 - j)) (f x)) :: u8) m =
        bit (reverse_bits8 (ucast (drop_bit (8 * j) x))) m"
      by (auto simp add: bit_simps bitrev bit_reverse_bits8)
  qed
  with j j' show "decode_value (f x) ! j = rev (map reverse_bits8 (decode_value x)) ! j"
    by (simp add: rev_nth decode_value_nth)
qed

lemma reverse_bits16_bytes:
  "decode_value (reverse_bits16 x) = rev (map reverse_bits8 (decode_value x))"
  by (rule reverse_bits_bytes) (simp_all add: bit_reverse_bits16)

lemma reverse_bits32_bytes:
  "decode_value (reverse_bits32 x) = rev (map reverse_bits8 (decode_value x))"
  by (rule reverse_bits_bytes) (simp_all add: bit_reverse_bits32)

text \<open>
  C10. \<open>reverse_bits\<close> is its own inverse at each of its three widths, and the 16- and
  32-bit forms agree with the 8-bit form: the bytes of the reversed value are the
  bit-reversed bytes of the argument, in reverse order.
\<close>

theorem reverse_bits_involution:
  "reverse_bits8 (reverse_bits8 x) = x \<and>
   reverse_bits16 (reverse_bits16 y) = y \<and>
   reverse_bits32 (reverse_bits32 z) = z \<and>
   decode_value (reverse_bits16 y) = rev (map reverse_bits8 (decode_value y)) \<and>
   decode_value (reverse_bits32 z) = rev (map reverse_bits8 (decode_value z))"
  by (simp only: reverse_bits8_twice reverse_bits16_twice reverse_bits32_twice
      reverse_bits16_bytes reverse_bits32_bytes)

subsection \<open>encode_uint16 and encode_uint32\<close>

lemma unat_u8_less: "unat (b :: u8) < 256"
  using unsigned_less [of b, where 'a = nat] by simp

text \<open>One step of the big-endian accumulation, as a number.\<close>

lemma shift_or_of_nat:
  "push_bit 8 (word_of_nat a :: 'a::len word) OR ucast (b :: u8) = word_of_nat (256 * a + unat b)"
proof -
  have "push_bit 8 (word_of_nat a :: 'a word) OR ucast b = push_bit 8 (word_of_nat a) + ucast b"
    by (rule disjunctive_add [symmetric]) (auto simp add: bit_simps dest: bit_imp_le_length)
  then show ?thesis by (simp add: push_bit_eq_mult)
qed

lemma encode_uint16_of_nat:
  "encode_uint16 msb lsb = word_of_nat (256 * unat msb + unat lsb)"
proof -
  have "ucast msb = (word_of_nat (unat msb) :: u16)" by (simp only: of_nat_unat)
  then show ?thesis
    unfolding encode_uint16_def by (simp only: shift_or_of_nat)
qed

lemma unat_encode_uint16: "unat (encode_uint16 msb lsb) = 256 * unat msb + unat lsb"
proof (rule of_nat_inverse)
  show "word_of_nat (256 * unat msb + unat lsb) = encode_uint16 msb lsb"
    by (simp only: encode_uint16_of_nat)
  from unat_u8_less [of msb] unat_u8_less [of lsb]
  show "256 * unat msb + unat lsb < 2 ^ LENGTH(16)" by simp
qed

lemma encode_value_loop_of_nat:
  "encode_value_loop bs (word_of_nat a :: 'a::len word) =
     word_of_nat (foldl (\<lambda>acc b. 256 * acc + unat b) a bs)"
  by (induction bs arbitrary: a) (simp_all only: encode_value_loop.simps foldl.simps shift_or_of_nat)

lemma encode_uint16_encode_value: "encode_uint16 msb lsb = encode_value [msb, lsb]"
  by (simp add: encode_value_def encode_uint16_def)

lemma encode_uint32_encode_value:
  "encode_uint32 b1 b2 b3 b4 = encode_value [b1, b2, b3, b4]"
  apply (simp add: encode_value_def encode_uint32_def)
  apply (rule bit_eqI)
  apply (auto simp add: bit_simps)
  done

lemma unat_encode_uint32:
  "unat (encode_uint32 b1 b2 b3 b4) =
     16777216 * unat b1 + 65536 * unat b2 + 256 * unat b3 + unat b4"
proof (rule of_nat_inverse)
  have "encode_value_loop [b1, b2, b3, b4] (word_of_nat 0 :: u32) =
          word_of_nat (foldl (\<lambda>acc b. 256 * acc + unat b) 0 [b1, b2, b3, b4])"
    by (rule encode_value_loop_of_nat)
  then show "word_of_nat (16777216 * unat b1 + 65536 * unat b2 + 256 * unat b3 + unat b4) =
      encode_uint32 b1 b2 b3 b4"
    by (simp add: encode_uint32_encode_value encode_value_def)
  from unat_u8_less [of b1] unat_u8_less [of b2] unat_u8_less [of b3] unat_u8_less [of b4]
  show "16777216 * unat b1 + 65536 * unat b2 + 256 * unat b3 + unat b4 < 2 ^ LENGTH(32)"
    by simp
qed

text \<open>
  C8. \<open>encode_uint16\<close> and \<open>encode_uint32\<close> are functions of their bytes alone, with a
  value for every argument; they put the bytes together from the most significant to
  the least significant one: \<open>encode_uint16 msb lsb\<close> is \<open>(msb << 8) | lsb\<close>, the number
  \<open>256 * msb + lsb\<close>, with \<open>encode_uint16 0x12 0x34 = 0x1234\<close>; \<open>encode_uint32 b1 b2 b3 b4\<close>
  is \<open>(b1 << 24) | (b2 << 16) | (b3 << 8) | b4\<close>, with
  \<open>encode_uint32 0x01 0x02 0x03 0x04 = 0x01020304\<close>.
\<close>

theorem encode_uint_most_significant_first:
  "encode_uint16 msb lsb = push_bit 8 (ucast msb) OR ucast lsb \<and>
   unat (encode_uint16 msb lsb) = 256 * unat msb + unat lsb \<and>
   decode_value (encode_uint16 msb lsb) = [msb, lsb] \<and>
   encode_uint16 0x12 0x34 = 0x1234 \<and>
   encode_uint32 b1 b2 b3 b4 =
     push_bit 24 (ucast b1) OR push_bit 16 (ucast b2) OR push_bit 8 (ucast b3) OR ucast b4 \<and>
   unat (encode_uint32 b1 b2 b3 b4) =
     16777216 * unat b1 + 65536 * unat b2 + 256 * unat b3 + unat b4 \<and>
   decode_value (encode_uint32 b1 b2 b3 b4) = [b1, b2, b3, b4] \<and>
   encode_uint32 0x01 0x02 0x03 0x04 = 0x01020304"
proof -
  have "decode_value (encode_uint16 msb lsb) = [msb, lsb]"
    by (simp add: encode_uint16_encode_value decode_encode_value)
  moreover have "decode_value (encode_uint32 b1 b2 b3 b4) = [b1, b2, b3, b4]"
    by (simp add: encode_uint32_encode_value decode_encode_value)
  moreover have "encode_uint16 0x12 0x34 = 0x1234"
    by (simp add: encode_uint16_def)
  moreover have "encode_uint32 0x01 0x02 0x03 0x04 = 0x01020304"
    by (simp add: encode_uint32_def)
  ultimately show ?thesis
    by (simp add: unat_encode_uint16 unat_encode_uint32)
      (simp add: encode_uint16_def encode_uint32_def)
qed

section \<open>Properties of the allocator\<close>

lemma flag_values: "REFUSE_INTERNAL = 1" "ALLOW_FAILURE = 2" "NONE = 0"
  by (simp_all add: REFUSE_INTERNAL_def ALLOW_FAILURE_def NONE_def)

text \<open>
  C2. On a platform with external RAM, for every element count and every value of the
  flags: \<open>allocate\<close> asks the external RAM pool first and returns its block if there is
  one; if there is none it asks the heap next, unless \<open>REFUSE_INTERNAL\<close> is set, and
  returns the heap's block if there is one; if it got no block, it returns the null
  pointer when \<open>ALLOW_FAILURE\<close> is set and calls \<open>abort\<close> when it is not. On every
  platform a null pointer is returned only with \<open>ALLOW_FAILURE\<close> set and \<open>abort\<close> is
  called only with \<open>ALLOW_FAILURE\<close> unset. In particular, with \<open>REFUSE_INTERNAL\<close> set and
  the external pool exhausted, the outcome is the null pointer with \<open>ALLOW_FAILURE\<close> and
  \<open>abort\<close> without it, whatever the heap would have answered.
\<close>

theorem allocate_failure_policy:
  "allocate True flags sizeof_T heap_caps_malloc_spiram malloc n =
     (case heap_caps_malloc_spiram (n * sizeof_T) of
        Some p \<Rightarrow> ([TrySpiram (n * sizeof_T)], Returned (Some p))
      | None \<Rightarrow>
          if flags AND REFUSE_INTERNAL = 0 then
            (case malloc (n * sizeof_T) of
               Some p \<Rightarrow>
                 ([TrySpiram (n * sizeof_T), TryHeap (n * sizeof_T)], Returned (Some p))
             | None \<Rightarrow>
                 ([TrySpiram (n * sizeof_T), TryHeap (n * sizeof_T)],
                  if flags AND ALLOW_FAILURE = 0 then Aborted else Returned None))
          else
            ([TrySpiram (n * sizeof_T)],
             if flags AND ALLOW_FAILURE = 0 then Aborted else Returned None)) \<and>
   (case snd (allocate use_esp32 flags sizeof_T heap_caps_malloc_spiram malloc n) of
      Aborted \<Rightarrow> flags AND ALLOW_FAILURE = 0
    | Returned None \<Rightarrow> flags AND ALLOW_FAILURE \<noteq> 0
    | Returned (Some p) \<Rightarrow> True) \<and>
   allocate True (REFUSE_INTERNAL OR ALLOW_FAILURE) sizeof_T pool_exhausted malloc n =
     ([TrySpiram (n * sizeof_T)], Returned None) \<and>
   allocate True REFUSE_INTERNAL sizeof_T pool_exhausted malloc n =
     ([TrySpiram (n * sizeof_T)], Aborted)"
  by (simp add: allocate_def Let_def pool_exhausted_def flag_values split: option.splits)

text \<open>
  C3, as the code has it. On a platform without external RAM, \<open>allocate\<close> is the plain
  heap allocation with the same \<open>ALLOW_FAILURE\<close> policy exactly when \<open>REFUSE_INTERNAL\<close> is
  not set. With \<open>REFUSE_INTERNAL\<close> set it asks no pool at all: it returns the null
  pointer when \<open>ALLOW_FAILURE\<close> is set and calls \<open>abort\<close> otherwise.
\<close>

theorem allocate_without_spiram:
  "allocate False flags sizeof_T heap_caps_malloc_spiram malloc n =
     (if flags AND REFUSE_INTERNAL = 0 then spec_heap_allocate flags sizeof_T malloc n
      else ([], if flags AND ALLOW_FAILURE = 0 then Aborted else Returned None))"
  by (simp add: allocate_def spec_heap_allocate_def Let_def)

theorem allocate_without_spiram_witness:
  "allocate False ALLOW_FAILURE (4 :: u32) pool_exhausted pool_exhausted 10 =
     spec_heap_allocate ALLOW_FAILURE 4 pool_exhausted 10 \<and>
   allocate False (REFUSE_INTERNAL OR ALLOW_FAILURE) (4 :: u32) pool_exhausted (pool_at 4096) 10 =
     ([], Returned None)"
  using allocate_without_spiram [of ALLOW_FAILURE "4 :: u32" pool_exhausted pool_exhausted 10]
    allocate_without_spiram
      [of "REFUSE_INTERNAL OR ALLOW_FAILURE" "4 :: u32" pool_exhausted "pool_at 4096" 10]
  by (simp add: flag_values)

text \<open>
  C3, as the claim states it, fails: without external RAM and with \<open>REFUSE_INTERNAL\<close>
  set, a heap that has the memory is never asked. \<open>allocate\<close> aborts (or returns the
  null pointer under \<open>ALLOW_FAILURE\<close>) where the plain heap allocation returns the block.
\<close>

theorem allocate_without_spiram_counterexample:
  "allocate False REFUSE_INTERNAL (4 :: u32) pool_exhausted (pool_at 4096) 10 = ([], Aborted) \<and>
   spec_heap_allocate REFUSE_INTERNAL (4 :: u32) (pool_at 4096) 10 =
     ([TryHeap 40], Returned (Some 4096)) \<and>
   allocate False (REFUSE_INTERNAL OR ALLOW_FAILURE) (4 :: u32) pool_exhausted (pool_at 4096) 10 =
     ([], Returned None) \<and>
   spec_heap_allocate (REFUSE_INTERNAL OR ALLOW_FAILURE) (4 :: u32) (pool_at 4096) 10 =
     ([TryHeap 40], Returned (Some 4096))"
  by (simp add: allocate_def spec_heap_allocate_def Let_def pool_at_def flag_values)

section \<open>Properties of the hex codec\<close>

subsection \<open>The digit loop\<close>

lemma length_put_nibble [simp]: "length (put_nibble data i v) = length data"
  by (simp add: put_nibble_def)

lemma put_nibble_nth_before: "j < i div 2 \<Longrightarrow> put_nibble data i v ! j = data ! j"
  by (simp add: put_nibble_def)

lemma parse_hex_digits_Cons:
  "parse_hex_digits (c # cs) i data =
     (case hex_digit c of
        None \<Rightarrow> (0, data)
      | Some v \<Rightarrow>
          (Suc (fst (parse_hex_digits cs (Suc i) (put_nibble data i v))),
           snd (parse_hex_digits cs (Suc i) (put_nibble data i v))))"
  by (simp split: option.splits prod.splits)

lemma fst_parse_hex_digits:
  "fst (parse_hex_digits cs i data) = length (takeWhile is_hex cs)"
  by (induction cs arbitrary: i data)
    (simp_all add: parse_hex_digits_Cons is_hex_def del: parse_hex_digits.simps(2)
      split: option.splits)

lemma length_parse_hex_digits [simp]:
  "length (snd (parse_hex_digits cs i data)) = length data"
  by (induction cs arbitrary: i data)
    (simp_all add: parse_hex_digits_Cons del: parse_hex_digits.simps(2) split: option.splits)

lemma parse_hex_digits_nth_before:
  "j < i div 2 \<Longrightarrow> snd (parse_hex_digits cs i data) ! j = data ! j"
proof (induction cs arbitrary: i data)
  case Nil
  then show ?case by simp
next
  case (Cons c cs)
  from Cons.prems have "j < Suc i div 2" by linarith
  with Cons.prems Cons.IH [of "Suc i"] show ?case
    by (simp add: parse_hex_digits_Cons put_nibble_nth_before del: parse_hex_digits.simps(2)
        split: option.splits)
qed

lemma put_nibble_append:
  assumes "2 * length pre \<le> i"
  shows "put_nibble (pre @ rest) i v = pre @ put_nibble rest (i - 2 * length pre) v"
proof -
  from assms have le: "\<not> i div 2 < length pre" by linarith
  have d: "(i - 2 * length pre) div 2 = i div 2 - length pre" by linarith
  from assms have e: "even (i - 2 * length pre) = even i" by simp
  from le assms show ?thesis
    by (simp add: put_nibble_def list_update_append nth_append d e)
qed

lemma parse_hex_digits_append:
  assumes "2 * length pre \<le> i"
  shows "parse_hex_digits cs i (pre @ rest) =
     (fst (parse_hex_digits cs (i - 2 * length pre) rest),
      pre @ snd (parse_hex_digits cs (i - 2 * length pre) rest))"
  using assms
proof (induction cs arbitrary: i rest)
  case Nil
  then show ?case by simp
next
  case (Cons c cs)
  from Cons.prems have "2 * length pre \<le> Suc i" "Suc i - 2 * length pre = Suc (i - 2 * length pre)"
    by simp_all
  with Cons.prems Cons.IH [of "Suc i"] show ?case
    by (simp add: parse_hex_digits_Cons put_nibble_append del: parse_hex_digits.simps(2)
        split: option.splits)
qed

lemma map_char_at_take: "n \<le> length str \<Longrightarrow> map (char_at str) [0..<n] = take n str"
  by (rule nth_equalityI) (simp_all add: char_at_def)

lemma fst_parse_hex:
  "fst (parse_hex str len data count) =
     length (takeWhile is_hex (map (char_at str) [0..<min len (2 * count)]))"
  by (simp add: parse_hex_def Let_def fst_parse_hex_digits)

lemma length_parse_hex [simp]: "length (snd (parse_hex str len data count)) = length data"
  by (simp add: parse_hex_def Let_def)

lemma length_takeWhile_eq_iff:
  "length (takeWhile P xs) = length xs \<longleftrightarrow> (\<forall>x\<in>set xs. P x)"
  by (metis takeWhile_eq_all_conv length_takeWhile_le takeWhile_eq_take take_all_iff order_refl)

lemma all_less_4: "(\<forall>i<4. P i) \<longleftrightarrow> P 0 \<and> P 1 \<and> P 2 \<and> P (3 :: nat)"
  by (auto simp add: eval_nat_numeral All_less_Suc)

lemma is_hex_simps:
  "is_hex CHR ''a''" "is_hex CHR ''b''" "is_hex CHR ''c''" "is_hex CHR ''d''" "\<not> is_hex CHR ''g''"
  by (simp_all add: is_hex_def hex_digit_def)

lemma fst_parse_hex_le: "fst (parse_hex str len data count) \<le> min len (2 * count)"
proof -
  let ?cs = "map (char_at str) [0..<min len (2 * count)]"
  have "length (takeWhile is_hex ?cs) \<le> length ?cs" by (rule length_takeWhile_le)
  then show ?thesis by (simp only: fst_parse_hex length_map length_upt diff_zero)
qed

lemma fst_parse_hex_full_iff:
  assumes "len \<le> length str"
  shows "fst (parse_hex str len data count) = 2 * count \<longleftrightarrow>
     2 * count \<le> len \<and> (\<forall>i<2 * count. is_hex (str ! i))"
proof (cases "2 * count \<le> len")
  case True
  then have m: "min len (2 * count) = 2 * count" by simp
  from True assms have le: "2 * count \<le> length str" by simp
  then have "map (char_at str) [0..<2 * count] = take (2 * count) str"
    by (rule map_char_at_take)
  moreover from le have "length (take (2 * count) str) = 2 * count" by simp
  ultimately have "fst (parse_hex str len data count) = 2 * count \<longleftrightarrow>
      (\<forall>x\<in>set (take (2 * count) str). is_hex x)"
    by (simp only: fst_parse_hex m) (metis length_takeWhile_eq_iff)
  also have "\<dots> \<longleftrightarrow> (\<forall>i<2 * count. is_hex (str ! i))"
    using le by (simp add: all_set_conv_all_nth)
  finally show ?thesis using True by simp
next
  case False
  with fst_parse_hex_le [of str len data count] show ?thesis by simp
qed

lemma unat_strlen_le: "unat (strlen str :: 's::len word) \<le> length str"
  by (simp add: strlen_def unat_of_nat)

lemma unat_strlen: "length str < 2 ^ LENGTH('s::len) \<Longrightarrow> unat (strlen str :: 's word) = length str"
  by (simp add: strlen_def unat_of_nat)

lemma size_t_eq_double:
  assumes "2 * unat (count :: 's::len word) < 2 ^ LENGTH('s)" and "n \<le> 2 * unat count"
  shows "(word_of_nat n :: 's word) = 2 * count \<longleftrightarrow> n = 2 * unat count"
proof -
  have "2 * count = (word_of_nat (2 * unat count) :: 's word)" by simp
  moreover from assms have "take_bit LENGTH('s) n = n"
    "take_bit LENGTH('s) (2 * unat count) = 2 * unat count"
    by (simp_all add: take_bit_nat_eq_self_iff)
  ultimately show ?thesis by (simp only: word_of_nat_eq_iff)
qed

lemma fst_parse_hex_strict:
  assumes "2 * unat (count :: 's::len word) < 2 ^ LENGTH('s)"
  shows "fst (parse_hex_strict str data count) \<longleftrightarrow>
     fst (parse_hex str (unat (strlen str :: 's word)) data (unat count)) = 2 * unat count"
proof -
  have "fst (parse_hex str (unat (strlen str :: 's word)) data (unat count)) \<le> 2 * unat count"
    using fst_parse_hex_le [of str "unat (strlen str :: 's word)" data "unat count"] by simp
  with assms show ?thesis
    by (simp add: parse_hex_strict_def case_prod_unfold size_t_eq_double)
qed

lemma snd_parse_hex_strict:
  "snd (parse_hex_strict str data (count :: 's::len word)) =
     snd (parse_hex str (unat (strlen str :: 's word)) data (unat count))"
  by (simp add: parse_hex_strict_def case_prod_unfold)

text \<open>
  C5, as the code has it. For every string and every count whose double does not wrap
  in \<open>size_t\<close>: the strict form returns true exactly when the buffer form, given the
  whole string, consumes exactly \<open>2 * count\<close> characters; that is the case exactly when
  the string has at least \<open>2 * count\<close> characters and its first \<open>2 * count\<close> characters
  are all hex digits. So it returns false on any shortfall (a string shorter than
  \<open>2 * count\<close>) and on any character that is no hex digit among the first \<open>2 * count\<close>.
\<close>

theorem parse_hex_strict_exact:
  assumes "2 * unat (count :: 's::len word) < 2 ^ LENGTH('s)"
  shows
    "(fst (parse_hex_strict str data count) \<longleftrightarrow>
        fst (parse_hex str (unat (strlen str :: 's word)) data (unat count)) = 2 * unat count) \<and>
     (fst (parse_hex_strict str data count) \<longleftrightarrow>
        2 * unat count \<le> unat (strlen str :: 's word) \<and>
        (\<forall>i<2 * unat count. is_hex (str ! i))) \<and>
     (length str < 2 ^ LENGTH('s) \<longrightarrow>
        (fst (parse_hex_strict str data count) \<longleftrightarrow>
           2 * unat count \<le> length str \<and> (\<forall>i<2 * unat count. is_hex (str ! i)))) \<and>
     (length str < 2 * unat count \<longrightarrow> \<not> fst (parse_hex_strict str data count)) \<and>
     (\<forall>i. i < length str \<and> i < 2 * unat count \<and> \<not> is_hex (str ! i) \<longrightarrow>
        \<not> fst (parse_hex_strict str data count)) \<and>
     snd (parse_hex_strict str data count) =
       snd (parse_hex str (unat (strlen str :: 's word)) data (unat count))"
proof -
  note a = fst_parse_hex_strict [OF assms, of str data]
  have b: "fst (parse_hex_strict str data count) \<longleftrightarrow>
      2 * unat count \<le> unat (strlen str :: 's word) \<and> (\<forall>i<2 * unat count. is_hex (str ! i))"
    using fst_parse_hex_full_iff [OF unat_strlen_le [where 's = 's], of str data "unat count"]
    by (simp only: a)
  have c: "fst (parse_hex_strict str data count) \<longleftrightarrow>
      2 * unat count \<le> length str \<and> (\<forall>i<2 * unat count. is_hex (str ! i))"
    if "length str < 2 ^ LENGTH('s)"
    using b unat_strlen [OF that] by simp
  have d: "\<not> fst (parse_hex_strict str data count)" if "length str < 2 * unat count"
    using that b unat_strlen_le [of str, where 's = 's] by simp
  from a b c d snd_parse_hex_strict [of str data count] show ?thesis by blast
qed

text \<open>
  C5, as the claim states it for every count, fails where \<open>2 * count\<close> wraps: with a
  \<open>size_t\<close> of 32 bits and \<open>count = 0x80000000\<close> the product is 0, the buffer form
  consumes the 0 characters of the empty string, and the strict form returns true on a
  shortfall of \<open>2 * count\<close> characters.
\<close>

lemma parse_hex_strict_wraps: "fst (parse_hex_strict [] data (2147483648 :: 32 word))"
  by (simp add: parse_hex_strict_def strlen_def parse_hex_def)

theorem parse_hex_strict_counterexample:
  "length '''' < 2 * unat (2147483648 :: 32 word) \<and>
   (2 * 2147483648 :: 32 word) = 0 \<and>
   fst (parse_hex_strict '''' (replicate 2147483648 0) (2147483648 :: 32 word))"
proof -
  have "fst (parse_hex_strict '''' (replicate 2147483648 0) (2147483648 :: 32 word))"
    by (rule parse_hex_strict_wraps)
  moreover have "length '''' < 2 * unat (2147483648 :: 32 word)" by simp
  moreover have "(2 * 2147483648 :: 32 word) = 0" by simp
  ultimately show ?thesis by (intro conjI)
qed

theorem parse_hex_strict_exact_witness:
  "2 * unat (2 :: 32 word) < 2 ^ LENGTH(32) \<and>
   fst (parse_hex_strict ''abcd'' [0, 0] (2 :: 32 word)) \<and>
   length ''abc'' < 2 * unat (2 :: 32 word) \<and>
   \<not> fst (parse_hex_strict ''abc'' [0, 0] (2 :: 32 word)) \<and>
   (2 :: nat) < length ''abgd'' \<and> 2 < 2 * unat (2 :: 32 word) \<and> \<not> is_hex (''abgd'' ! 2) \<and>
   \<not> fst (parse_hex_strict ''abgd'' [0, 0] (2 :: 32 word))"
proof -
  have w: "2 * unat (2 :: 32 word) < 2 ^ LENGTH(32)" by simp
  have l: "length ''abcd'' < 2 ^ LENGTH(32)" by simp
  have a: "2 * unat (2 :: 32 word) \<le> length ''abcd'' \<and>
      (\<forall>i<2 * unat (2 :: 32 word). is_hex (''abcd'' ! i))"
    by (simp add: all_less_4 is_hex_simps)
  have b: "length ''abc'' < 2 * unat (2 :: 32 word)"
    by simp
  have c: "(2 :: nat) < length ''abgd'' \<and> 2 < 2 * unat (2 :: 32 word) \<and> \<not> is_hex (''abgd'' ! 2)"
    by (simp add: is_hex_simps)
  from l a parse_hex_strict_exact [OF w, of "''abcd''" "[0, 0]"]
  have "fst (parse_hex_strict ''abcd'' [0, 0] (2 :: 32 word))" by blast
  moreover from b parse_hex_strict_exact [OF w, of "''abc''" "[0, 0]"]
  have "\<not> fst (parse_hex_strict ''abc'' [0, 0] (2 :: 32 word))" by blast
  moreover from c parse_hex_strict_exact [OF w, of "''abgd''" "[0, 0]"]
  have "\<not> fst (parse_hex_strict ''abgd'' [0, 0] (2 :: 32 word))" by blast
  ultimately show ?thesis using w b c by blast
qed

lemma hex_digit_zero: "hex_digit CHR ''0'' = Some 0"
  by (simp add: hex_digit_def)

lemma parse_hex_digits_zeros:
  "parse_hex_digits (replicate k CHR ''0'' @ cs) i data =
     (k + fst (parse_hex_digits cs (i + k) (zero_fill k i data)),
      snd (parse_hex_digits cs (i + k) (zero_fill k i data)))"
  by (induction k arbitrary: i data)
    (simp_all add: parse_hex_digits_Cons hex_digit_zero del: parse_hex_digits.simps(2))

lemma length_zero_fill [simp]: "length (zero_fill k i data) = length data"
  by (induction k arbitrary: i data) simp_all

lemma put_nibble_zero_nth:
  "j < length data \<Longrightarrow>
   put_nibble data i 0 ! j = (if even i \<and> j = i div 2 then 0 else data ! j)"
  by (simp add: put_nibble_def nth_list_update)

lemma zero_fill_nth:
  "j < length data \<Longrightarrow>
   zero_fill k i data ! j =
     (if Suc i div 2 \<le> j \<and> j < (i + k + 1) div 2 then 0 else data ! j)"
proof (induction k arbitrary: i data)
  case 0
  then show ?case by auto
next
  case (Suc k)
  show ?case
  proof (cases "even i")
    case True
    then obtain h where i: "i = 2 * h" by (elim evenE)
    with Suc.prems Suc.IH [of "put_nibble data i 0" "Suc i"] show ?thesis
      by (auto simp add: put_nibble_zero_nth)
  next
    case False
    then obtain h where i: "i = 2 * h + 1" by (elim oddE)
    with Suc.prems Suc.IH [of "put_nibble data i 0" "Suc i"] show ?thesis
      by (auto simp add: put_nibble_zero_nth)
  qed
qed


lemma parse_hex_short:
  assumes "len < 2 * count"
  shows "parse_hex str len data count =
     parse_hex_digits (map (char_at str) [0..<len]) (2 * count - len)
       (if odd (2 * count - len) then data[(2 * count - len) div 2 := 0] else data)"
proof -
  from assms have "min len (2 * count) = len" by simp
  then show ?thesis by (simp add: parse_hex_def Let_def)
qed

lemma parse_hex_full:
  assumes "length str = 2 * count"
  shows "parse_hex str (2 * count) data count = parse_hex_digits str 0 data"
proof -
  from assms have "map (char_at str) [0..<2 * count] = str"
    by (simp add: map_char_at_take)
  then show ?thesis by (simp add: parse_hex_def Let_def)
qed

lemma parse_hex_as_padded:
  assumes len: "len < 2 * count" and data: "length data = count"
  shows "snd (parse_hex str len data count) =
     take ((2 * count - len) div 2) data @
     drop ((2 * count - len) div 2)
       (snd (parse_hex (replicate (2 * count - len) CHR ''0'' @ map (char_at str) [0..<len])
          (2 * count) data count))"
proof -
  define pad where "pad = 2 * count - len"
  define cs where "cs = map (char_at str) [0..<len]"
  let ?m = "pad div 2"
  let ?data0 = "if odd pad then data[?m := 0] else data"
  let ?Z = "zero_fill pad 0 data"
  let ?R = "parse_hex_digits cs (pad - 2 * ?m) (drop ?m ?data0)"
  from len data have m: "?m \<le> length data" by (simp add: pad_def)
  have tail: "drop ?m ?Z = drop ?m ?data0"
  proof (rule nth_equalityI)
    show "length (drop ?m ?Z) = length (drop ?m ?data0)" by simp
  next
    fix j assume "j < length (drop ?m ?Z)"
    then have j: "?m + j < length data" by simp
    then have Znth: "?Z ! (?m + j) = (if ?m + j < (pad + 1) div 2 then 0 else data ! (?m + j))"
      by (simp add: zero_fill_nth)
    show "drop ?m ?Z ! j = drop ?m ?data0 ! j"
    proof (cases "odd pad")
      case True
      then have "(pad + 1) div 2 = ?m + 1" by (elim oddE) simp
      with True j m Znth show ?thesis by (simp add: nth_list_update)
    next
      case False
      then have "even pad" by simp
      then have "(pad + 1) div 2 = ?m" by (elim evenE) simp
      with False j m Znth show ?thesis by simp
    qed
  qed
  have head: "take ?m ?data0 = take ?m data" by simp
  from m have lens: "length (take ?m ?Z) = ?m" "length (take ?m data) = ?m" by simp_all
  have le: "2 * ?m \<le> pad" by simp
  have "parse_hex_digits cs pad ?Z = parse_hex_digits cs pad (take ?m ?Z @ drop ?m ?data0)"
    by (simp only: tail [symmetric] append_take_drop_id)
  also have "\<dots> = (fst ?R, take ?m ?Z @ snd ?R)"
    using parse_hex_digits_append [of "take ?m ?Z" pad cs "drop ?m ?data0"] le lens by simp
  finally have Z: "snd (parse_hex_digits cs pad ?Z) = take ?m ?Z @ snd ?R" by simp
  have "parse_hex_digits cs pad ?data0 = parse_hex_digits cs pad (take ?m data @ drop ?m ?data0)"
    by (simp only: head [symmetric] append_take_drop_id)
  also have "\<dots> = (fst ?R, take ?m data @ snd ?R)"
    using parse_hex_digits_append [of "take ?m data" pad cs "drop ?m ?data0"] le lens by simp
  finally have D: "snd (parse_hex_digits cs pad ?data0) = take ?m data @ snd ?R" by simp
  from len have "length (replicate pad CHR ''0'' @ cs) = 2 * count"
    by (simp add: pad_def cs_def)
  then have "parse_hex (replicate pad CHR ''0'' @ cs) (2 * count) data count =
      parse_hex_digits (replicate pad CHR ''0'' @ cs) 0 data"
    by (rule parse_hex_full)
  then have "snd (parse_hex (replicate pad CHR ''0'' @ cs) (2 * count) data count) =
      take ?m ?Z @ snd ?R"
    by (simp add: parse_hex_digits_zeros Z)
  with lens have "drop ?m (snd (parse_hex (replicate pad CHR ''0'' @ cs) (2 * count) data count)) =
      snd ?R" by simp
  moreover have "parse_hex str len data count = parse_hex_digits cs pad ?data0"
    unfolding pad_def cs_def by (rule parse_hex_short [OF len])
  then have "snd (parse_hex str len data count) = take ?m data @ snd ?R"
    by (simp only: D)
  ultimately show ?thesis by (simp only: pad_def cs_def)
qed


lemma hex_digit_bcd:
  "hex_digit CHR ''b'' = Some 0x0B" "hex_digit CHR ''c'' = Some 0x0C"
  "hex_digit CHR ''d'' = Some 0x0D"
  by (simp_all add: hex_digit_def)

lemma upt_3: "[0..<3] = [0, 1, 2]"
  by (simp add: upt_rec)

lemma parse_hex_bcd: "parse_hex ''bcd'' 3 [a, b] 2 = (3, [0x0B, 0xCD])"
  by (simp add: parse_hex_def Let_def upt_3 char_at_def hex_digit_bcd put_nibble_def)

text \<open>
  C6. For the buffer form with \<open>len < 2 * count\<close>, on a buffer of \<open>count\<close> bytes: the
  return value is the number of characters consumed (the hex digits at the front of the
  \<open>len\<close> characters examined; all \<open>len\<close> of them when all are hex digits); the bytes in
  front of the first digit keep their value; and the buffer is, from there on, the
  buffer that parsing the text padded with \<^verbatim>\<open>'0'\<close> at the front to \<open>2 * count\<close> characters
  leaves. Concretely \<open>parse_hex "bcd" 3 out 2\<close> returns 3 with \<open>out = [0x0B, 0xCD]\<close>.
\<close>

theorem parse_hex_right_aligned:
  assumes "len < 2 * count" and "length data = count"
  shows "fst (parse_hex str len data count) =
           length (takeWhile is_hex (map (char_at str) [0..<len])) \<and>
         fst (parse_hex str len data count) \<le> len \<and>
         ((\<forall>i<len. is_hex (char_at str i)) \<longrightarrow> fst (parse_hex str len data count) = len) \<and>
         length (snd (parse_hex str len data count)) = count \<and>
         (\<forall>j<(2 * count - len) div 2. snd (parse_hex str len data count) ! j = data ! j) \<and>
         snd (parse_hex str len data count) =
           take ((2 * count - len) div 2) data @
           drop ((2 * count - len) div 2)
             (snd (parse_hex
                (replicate (2 * count - len) CHR ''0'' @ map (char_at str) [0..<len])
                (2 * count) data count)) \<and>
         parse_hex ''bcd'' 3 [a, b] 2 = (3, [0x0B, 0xCD])"
proof -
  let ?cs = "map (char_at str) [0..<len]"
  from assms have m: "min len (2 * count) = len" by simp
  then have f: "fst (parse_hex str len data count) = length (takeWhile is_hex ?cs)"
    by (simp add: fst_parse_hex)
  have "length (takeWhile is_hex ?cs) \<le> length ?cs" by (rule length_takeWhile_le)
  with f have le: "fst (parse_hex str len data count) \<le> len" by simp
  have all: "fst (parse_hex str len data count) = len" if "\<forall>i<len. is_hex (char_at str i)"
  proof -
    from that have "\<forall>x\<in>set ?cs. is_hex x" by simp
    then have "takeWhile is_hex ?cs = ?cs" by (simp only: takeWhile_eq_all_conv)
    with f show ?thesis by simp
  qed
  have before: "snd (parse_hex str len data count) ! j = data ! j"
    if "j < (2 * count - len) div 2" for j
    using that by (simp add: parse_hex_short [OF assms(1)] parse_hex_digits_nth_before)
  from f le all before assms parse_hex_as_padded [OF assms, of str] show ?thesis
    by (simp add: parse_hex_bcd)
qed

theorem parse_hex_right_aligned_witness:
  "(3 :: nat) < 2 * 3 \<and> length [0xFF, 0xFF, 0xFF :: u8] = 3 \<and>
   fst (parse_hex ''bcd'' 3 [0xFF, 0xFF, 0xFF] 3) \<le> 3 \<and>
   length (snd (parse_hex ''bcd'' 3 [0xFF, 0xFF, 0xFF] 3)) = 3 \<and>
   snd (parse_hex ''bcd'' 3 [0xFF, 0xFF, 0xFF] 3) ! 0 = 0xFF"
proof -
  have h: "(3 :: nat) < 2 * 3" "length [0xFF, 0xFF, 0xFF :: u8] = 3" by simp_all
  have z: "(0 :: nat) < (2 * 3 - 3) div 2" by simp
  from parse_hex_right_aligned [OF h, of "''bcd''"]
  have "fst (parse_hex ''bcd'' 3 [0xFF, 0xFF, 0xFF] 3) \<le> 3"
    and "length (snd (parse_hex ''bcd'' 3 [0xFF, 0xFF, 0xFF] 3)) = 3"
    and "\<forall>j<(2 * 3 - 3) div 2.
           snd (parse_hex ''bcd'' 3 [0xFF, 0xFF, 0xFF] 3) ! j = [0xFF, 0xFF, 0xFF] ! j"
    by blast+
  with z h show ?thesis by auto
qed

subsection \<open>The typed overload\<close>

lemma be_nat_simps [simp]:
  "be_nat [] acc = acc" "be_nat (b # bs) acc = be_nat bs (256 * acc + unat b)"
  by (simp_all add: be_nat_def)


lemma be_nat_zeros: "be_nat (replicate k 0) 0 = 0"
  by (induction k) simp_all


































end
